theory Spec2Isabelle
  imports Main
begin

section \<open>Multiple-control, multiple-target gate synthesis (qiskit/aqua/utils/mcmt.py)\<close>

subsection \<open>Data model\<close>

text \<open>
  A qubit is an opaque handle.  The circuit under construction is the list of the
  operations appended so far: \<open>qc.ccx(a, b, t)\<close> appends \<open>CCX a b t\<close>, and the
  caller's \<open>single_control_gate_fun(qc, c, t)\<close> appends \<open>CGate c t\<close>.  The callback is
  opaque to the module and is taken to append its one operation.  The argument checks
  that \<open>ccx\<close> makes on its own are not modelled: \<open>mcmt\<close> only reaches a fold after
  \<open>_check_qubit\<close> and \<open>_check_dups\<close> have accepted all qubits, and the properties of the
  chains taken alone assume distinct qubits.
\<close>

type_synonym qubit = nat

datatype gate = CCX qubit qubit qubit | CGate qubit qubit

type_synonym circuit = "gate list"

text \<open>
  The exceptions the module can raise.  The three \<open>ValueError_*\<close> of the argument checks
  and \<open>ValueError_mode\<close> are the \<open>raise ValueError\<close> statements of \<open>mcmt\<close>;
  \<open>AssertionError_ancilla\<close> is the \<open>assert\<close> of the compute chain; \<open>IndexError\<close> is a
  list subscript out of range; \<open>QiskitError_qubit\<close> and \<open>QiskitError_dups\<close> are what the
  host circuit's \<open>_check_qubit\<close> and \<open>_check_dups\<close> raise.
\<close>

datatype error =
    ValueError_controls
  | ValueError_targets
  | ValueError_ancilla
  | ValueError_mode
  | AssertionError_ancilla
  | IndexError
  | QiskitError_qubit
  | QiskitError_dups

text \<open>
  A Python exception leaves the circuit as mutated so far, so every operation returns
  the raised error (if any) together with the circuit at that moment.
\<close>

type_synonym outcome = "error option \<times> circuit"

text \<open>
  What a caller may pass for \<open>q_controls\<close>, \<open>q_ancillae\<close>, \<open>q_targets\<close>: \<open>None\<close>, a
  Python list, a \<open>QuantumRegister\<close> (iterating it yields its qubits), or anything else.
\<close>

datatype pyarg = PyNone | PyList "qubit list" | PyRegister "qubit list" | PyOther

subsection \<open>Python list subscripts\<close>

text \<open>\<open>xs[i]\<close>: a negative subscript counts from the end, out of range raises.\<close>

definition subscript :: "'a list \<Rightarrow> int \<Rightarrow> 'a option" where
  "subscript xs i =
     (if 0 \<le> i \<and> i < int (length xs) then Some (xs ! nat i)
      else if i < 0 \<and> - int (length xs) \<le> i then Some (xs ! nat (int (length xs) + i))
      else None)"

subsection \<open>The compute chain\<close>

text \<open>
  The \<open>for idx in range(2, len(control_qubits))\<close> loop of \<open>_ccx_v_chain_compute\<close>, over
  the remaining values of \<open>idx\<close>, with the current \<open>anci_idx\<close>.
\<close>

fun compute_loop :: "qubit list \<Rightarrow> qubit list \<Rightarrow> nat list \<Rightarrow> int \<Rightarrow> circuit \<Rightarrow> outcome" where
  "compute_loop control_qubits ancillary_qubits [] anci_idx qc = (None, qc)"
| "compute_loop control_qubits ancillary_qubits (idx # rest) anci_idx qc =
     (if \<not> (anci_idx + 1 < int (length ancillary_qubits)) then (Some AssertionError_ancilla, qc)
      else
        (case subscript control_qubits (int idx) of
           None \<Rightarrow> (Some IndexError, qc)
         | Some c \<Rightarrow>
        (case subscript ancillary_qubits anci_idx of
           None \<Rightarrow> (Some IndexError, qc)
         | Some a \<Rightarrow>
        (case subscript ancillary_qubits (anci_idx + 1) of
           None \<Rightarrow> (Some IndexError, qc)
         | Some b \<Rightarrow>
             compute_loop control_qubits ancillary_qubits rest (anci_idx + 1)
               (qc @ [CCX c a b])))))"

definition ccx_v_chain_compute :: "circuit \<Rightarrow> qubit list \<Rightarrow> qubit list \<Rightarrow> outcome" where
  "ccx_v_chain_compute qc control_qubits ancillary_qubits =
     (case subscript control_qubits 0 of
        None \<Rightarrow> (Some IndexError, qc)
      | Some c0 \<Rightarrow>
     (case subscript control_qubits 1 of
        None \<Rightarrow> (Some IndexError, qc)
      | Some c1 \<Rightarrow>
     (case subscript ancillary_qubits 0 of
        None \<Rightarrow> (Some IndexError, qc)
      | Some a0 \<Rightarrow>
          compute_loop control_qubits ancillary_qubits [2 ..< length control_qubits] 0
            (qc @ [CCX c0 c1 a0]))))"

subsection \<open>The uncompute chain\<close>

text \<open>
  The \<open>for idx in (range(2, len(control_qubits)))[::-1]\<close> loop of
  \<open>_ccx_v_chain_uncompute\<close>; it returns the final \<open>anci_idx\<close> for the closing fold.
\<close>

fun uncompute_loop ::
  "qubit list \<Rightarrow> qubit list \<Rightarrow> nat list \<Rightarrow> int \<Rightarrow> circuit \<Rightarrow> (error + int) \<times> circuit" where
  "uncompute_loop control_qubits ancillary_qubits [] anci_idx qc = (Inr anci_idx, qc)"
| "uncompute_loop control_qubits ancillary_qubits (idx # rest) anci_idx qc =
     (case subscript control_qubits (int idx) of
        None \<Rightarrow> (Inl IndexError, qc)
      | Some c \<Rightarrow>
     (case subscript ancillary_qubits (anci_idx - 1) of
        None \<Rightarrow> (Inl IndexError, qc)
      | Some a \<Rightarrow>
     (case subscript ancillary_qubits anci_idx of
        None \<Rightarrow> (Inl IndexError, qc)
      | Some b \<Rightarrow>
          uncompute_loop control_qubits ancillary_qubits rest (anci_idx - 1)
            (qc @ [CCX c a b]))))"

definition ccx_v_chain_uncompute :: "circuit \<Rightarrow> qubit list \<Rightarrow> qubit list \<Rightarrow> outcome" where
  "ccx_v_chain_uncompute qc control_qubits ancillary_qubits =
     (case uncompute_loop control_qubits ancillary_qubits
             (rev [2 ..< length control_qubits]) (int (length ancillary_qubits) - 1) qc of
        (Inl e, qc1) \<Rightarrow> (Some e, qc1)
      | (Inr anci_idx, qc1) \<Rightarrow>
     (case subscript control_qubits 0 of
        None \<Rightarrow> (Some IndexError, qc1)
      | Some c0 \<Rightarrow>
     (case subscript control_qubits 1 of
        None \<Rightarrow> (Some IndexError, qc1)
      | Some c1 \<Rightarrow>
     (case subscript ancillary_qubits anci_idx of
        None \<Rightarrow> (Some IndexError, qc1)
      | Some a \<Rightarrow> (None, qc1 @ [CCX c0 c1 a])))))"

subsection \<open>The orchestrator\<close>

text \<open>
  The \<open>isinstance\<close> chains at the head of \<open>mcmt\<close>: a register is listed, a list is taken
  as it is, \<open>None\<close> is the empty pool for the ancillae only, anything else is refused.
\<close>

fun qubits_of :: "pyarg \<Rightarrow> qubit list option" where
  "qubits_of (PyRegister qs) = Some qs"
| "qubits_of (PyList qs) = Some qs"
| "qubits_of PyNone = None"
| "qubits_of PyOther = None"

fun ancillae_of :: "pyarg \<Rightarrow> qubit list option" where
  "ancillae_of PyNone = Some []"
| "ancillae_of (PyRegister qs) = Some qs"
| "ancillae_of (PyList qs) = Some qs"
| "ancillae_of PyOther = None"

text \<open>
  Modelled from the spec: \<open>_check_dups\<close> is a method of the host circuit class, which is
  not part of this module; the spec's distinctness invariant says that no qubit may
  appear more than once across the combined control, target and ancilla list.
\<close>

definition check_dups :: "qubit list \<Rightarrow> bool" where
  "check_dups qs = distinct qs"

text \<open>
  The \<open>for qubit in target_qubits\<close> loop of the general case: the controlling ancilla
  \<open>ancillary_qubits[ancn - 1]\<close> is read again for each target.
\<close>

fun apply_targets :: "qubit list \<Rightarrow> int \<Rightarrow> qubit list \<Rightarrow> circuit \<Rightarrow> outcome" where
  "apply_targets ancillary_qubits ancn [] qc = (None, qc)"
| "apply_targets ancillary_qubits ancn (qubit # rest) qc =
     (case subscript ancillary_qubits (ancn - 1) of
        None \<Rightarrow> (Some IndexError, qc)
      | Some a \<Rightarrow> apply_targets ancillary_qubits ancn rest (qc @ [CGate a qubit]))"

text \<open>
  \<open>mcmt\<close>.  The host circuit's \<open>_check_qubit\<close> is the parameter \<open>check_qubit\<close> (true when
  the qubit is accepted).  With one control the function returns before it looks at
  \<open>mode\<close>; \<open>len(q_controls)\<close> and \<open>q_controls[0]\<close> read the argument itself, which for a
  list and for a register agree with \<open>control_qubits\<close>.
\<close>

definition mcmt ::
  "(qubit \<Rightarrow> bool) \<Rightarrow> circuit \<Rightarrow> pyarg \<Rightarrow> pyarg \<Rightarrow> pyarg \<Rightarrow> string \<Rightarrow> outcome" where
  "mcmt check_qubit qc q_controls q_ancillae q_targets mode =
     (case qubits_of q_controls of
        None \<Rightarrow> (Some ValueError_controls, qc)
      | Some control_qubits \<Rightarrow>
     (case qubits_of q_targets of
        None \<Rightarrow> (Some ValueError_targets, qc)
      | Some target_qubits \<Rightarrow>
     (case ancillae_of q_ancillae of
        None \<Rightarrow> (Some ValueError_ancilla, qc)
      | Some ancillary_qubits \<Rightarrow>
          if \<not> list_all check_qubit (control_qubits @ target_qubits @ ancillary_qubits)
          then (Some QiskitError_qubit, qc)
          else if \<not> check_dups (control_qubits @ target_qubits @ ancillary_qubits)
          then (Some QiskitError_dups, qc)
          else if length control_qubits = 1
          then (None, qc @ map (CGate (hd control_qubits)) target_qubits)
          else if mode = ''basic''
          then
            (case ccx_v_chain_compute qc control_qubits ancillary_qubits of
               (Some e, qc1) \<Rightarrow> (Some e, qc1)
             | (None, qc1) \<Rightarrow>
            (case apply_targets ancillary_qubits (int (length ancillary_qubits))
                    target_qubits qc1 of
               (Some e, qc2) \<Rightarrow> (Some e, qc2)
             | (None, qc2) \<Rightarrow> ccx_v_chain_uncompute qc2 control_qubits ancillary_qubits))
          else (Some ValueError_mode, qc))))"

subsection \<open>Classical boolean reading of an emitted sequence\<close>

text \<open>
  A basis state gives every qubit a boolean.  \<open>ccx\<close> is the Toffoli gate: the third
  qubit is flipped when the first two are set.  The caller's primitive applies the
  target's truth table \<open>f\<close> to the target when its single control is set.
\<close>

type_synonym state = "qubit \<Rightarrow> bool"

fun exec_gate :: "(bool \<Rightarrow> bool) \<Rightarrow> gate \<Rightarrow> state \<Rightarrow> state" where
  "exec_gate f (CCX a b t) s = s(t := (s t \<noteq> (s a \<and> s b)))"
| "exec_gate f (CGate c t) s = (if s c then s(t := f (s t)) else s)"

definition exec :: "(bool \<Rightarrow> bool) \<Rightarrow> circuit \<Rightarrow> state \<Rightarrow> state" where
  "exec f ops s = fold (exec_gate f) ops s"

subsection \<open>Closed forms of the emitted chains\<close>

text \<open>
  The folds a successful compute chain appends, and the folds a successful uncompute
  chain appends, written as lists; the lemmas below show that the loops of the source
  produce exactly these.
\<close>

definition compute_folds :: "qubit list \<Rightarrow> qubit list \<Rightarrow> circuit" where
  "compute_folds cs anc =
     CCX (cs ! 0) (cs ! 1) (anc ! 0) #
     map (\<lambda>i. CCX (cs ! i) (anc ! (i - 2)) (anc ! (i - 1))) [2 ..< length cs]"

definition uncompute_folds :: "qubit list \<Rightarrow> qubit list \<Rightarrow> circuit" where
  "uncompute_folds cs anc =
     map (\<lambda>i. CCX (cs ! i) (anc ! (length anc + i - length cs - 1)) (anc ! (length anc + i - length cs)))
       (rev [2 ..< length cs])
     @ [CCX (cs ! 0) (cs ! 1) (anc ! (length anc + 1 - length cs))]"

subsection \<open>Auxiliary notions for stating the properties\<close>

text \<open>The qubits a gate mentions, and the kind of a gate.\<close>

fun gate_qubits :: "gate \<Rightarrow> qubit set" where
  "gate_qubits (CCX a b t) = {a, b, t}"
| "gate_qubits (CGate c t) = {c, t}"

fun is_ccx :: "gate \<Rightarrow> bool" where
  "is_ccx (CCX a b t) = True"
| "is_ccx (CGate c t) = False"

text \<open>The qubit a gate may change.\<close>

fun written :: "gate \<Rightarrow> qubit" where
  "written (CCX a b t) = t"
| "written (CGate c t) = t"

text \<open>A host circuit that accepts every qubit, and the basis state in which exactly the
  listed qubits are set.\<close>

definition accept_all :: "qubit \<Rightarrow> bool" where
  "accept_all q = True"

definition basis_state :: "qubit list \<Rightarrow> state" where
  "basis_state on q = (q \<in> set on)"

text \<open>A fold whose target differs from both of its controls; such a fold undoes itself.\<close>

fun ccx_proper :: "gate \<Rightarrow> bool" where
  "ccx_proper (CCX a b t) = (t \<noteq> a \<and> t \<noteq> b)"
| "ccx_proper (CGate c t) = False"

section \<open>Properties\<close>

subsection \<open>The loops produce the closed forms\<close>

lemma subscript_nat: "i < length xs \<Longrightarrow> subscript xs (int i) = Some (xs ! i)"
  by (simp add: subscript_def)

lemma subscript_empty: "subscript [] i = None"
  by (simp add: subscript_def)

lemma compute_loop_ok:
  "2 \<le> i \<Longrightarrow> k \<le> length cs \<Longrightarrow> k \<le> Suc (length anc) \<Longrightarrow>
   compute_loop cs anc [i ..< k] (int i - 2) qc =
     (None, qc @ map (\<lambda>i. CCX (cs ! i) (anc ! (i - 2)) (anc ! (i - 1))) [i ..< k])"
proof (induction "k - i" arbitrary: i qc)
  case 0
  then show ?case by simp
next
  case (Suc d)
  then have lt: "i < k" by simp
  have a1: "subscript cs (int i) = Some (cs ! i)"
    using lt Suc.prems by (simp add: subscript_nat)
  have a2: "subscript anc (int i - 2) = Some (anc ! (i - 2))"
    using lt Suc.prems subscript_nat [of "i - 2" anc] by (simp add: of_nat_diff)
  have a3: "subscript anc (int i - 2 + 1) = Some (anc ! (i - 1))"
    using lt Suc.prems subscript_nat [of "i - 1" anc] by (simp add: of_nat_diff)
  have g: "int i - 2 + 1 < int (length anc)"
    using lt Suc.prems by simp
  have ih: "compute_loop cs anc [Suc i ..< k] (int (Suc i) - 2) (qc @ [CCX (cs ! i) (anc ! (i - 2)) (anc ! (i - 1))]) =
     (None, (qc @ [CCX (cs ! i) (anc ! (i - 2)) (anc ! (i - 1))]) @ map (\<lambda>i. CCX (cs ! i) (anc ! (i - 2)) (anc ! (i - 1))) [Suc i ..< k])"
    using Suc.hyps(1) [of "Suc i"] Suc.hyps(2) Suc.prems by simp
  have e: "int (Suc i) - 2 = int i - 2 + 1" by simp
  show ?case
    using lt a1 a2 a3 g ih unfolding e by (simp add: upt_conv_Cons)
qed

lemma compute_ok:
  assumes "2 \<le> length cs" "length cs \<le> Suc (length anc)"
  shows "ccx_v_chain_compute qc cs anc = (None, qc @ compute_folds cs anc)"
proof -
  have "subscript cs 0 = Some (cs ! 0)" "subscript cs 1 = Some (cs ! 1)" "subscript anc 0 = Some (anc ! 0)"
    using assms by (auto simp: subscript_def)
  then show ?thesis
    using compute_loop_ok [of 2 "length cs" cs anc "qc @ [CCX (cs ! 0) (cs ! 1) (anc ! 0)]"] assms
    by (simp add: ccx_v_chain_compute_def compute_folds_def)
qed

lemma compute_loop_short:
  "2 \<le> i \<Longrightarrow> i \<le> Suc (length anc) \<Longrightarrow> Suc (length anc) < k \<Longrightarrow> k \<le> length cs \<Longrightarrow>
   compute_loop cs anc [i ..< k] (int i - 2) qc =
     (Some AssertionError_ancilla,
      qc @ map (\<lambda>i. CCX (cs ! i) (anc ! (i - 2)) (anc ! (i - 1))) [i ..< Suc (length anc)])"
proof (induction "Suc (length anc) - i" arbitrary: i qc)
  case 0
  then have "i = Suc (length anc)" by simp
  then show ?case using 0 by (simp add: upt_conv_Cons)
next
  case (Suc d)
  then have lt: "i < Suc (length anc)" "i < k" by simp_all
  have a1: "subscript cs (int i) = Some (cs ! i)"
    using lt Suc.prems by (simp add: subscript_nat)
  have a2: "subscript anc (int i - 2) = Some (anc ! (i - 2))"
    using lt Suc.prems subscript_nat [of "i - 2" anc] by (simp add: of_nat_diff)
  have a3: "subscript anc (int i - 2 + 1) = Some (anc ! (i - 1))"
    using lt Suc.prems subscript_nat [of "i - 1" anc] by (simp add: of_nat_diff)
  have g: "int i - 2 + 1 < int (length anc)"
    using lt Suc.prems by simp
  have ih: "compute_loop cs anc [Suc i ..< k] (int (Suc i) - 2) (qc @ [CCX (cs ! i) (anc ! (i - 2)) (anc ! (i - 1))]) =
     (Some AssertionError_ancilla, (qc @ [CCX (cs ! i) (anc ! (i - 2)) (anc ! (i - 1))]) @ map (\<lambda>i. CCX (cs ! i) (anc ! (i - 2)) (anc ! (i - 1))) [Suc i ..< Suc (length anc)])"
    using Suc.hyps(1) [of "Suc i"] Suc.hyps(2) Suc.prems lt by simp
  have e: "int (Suc i) - 2 = int i - 2 + 1" by simp
  have u: "[i ..< k] = i # [Suc i ..< k]" "[i ..< Suc (length anc)] = i # [Suc i ..< Suc (length anc)]"
    using lt by (simp_all add: upt_conv_Cons)
  show ?case
    using a1 a2 a3 g ih unfolding e u by simp
qed

lemma compute_short:
  assumes "1 \<le> length anc" "Suc (length anc) < length cs"
  shows "ccx_v_chain_compute qc cs anc =
           (Some AssertionError_ancilla, qc @ take (length anc) (compute_folds cs anc))"
proof -
  have s: "subscript cs 0 = Some (cs ! 0)" "subscript cs 1 = Some (cs ! 1)" "subscript anc 0 = Some (anc ! 0)"
    using assms by (auto simp: subscript_def)
  have t: "take (length anc) (compute_folds cs anc) =
     CCX (cs ! 0) (cs ! 1) (anc ! 0) # map (\<lambda>i. CCX (cs ! i) (anc ! (i - 2)) (anc ! (i - 1))) [2 ..< Suc (length anc)]"
  proof -
    obtain n where n: "length anc = Suc n" using assms by (cases "length anc") auto
    have "take n [2 ..< length cs] = [2 ..< Suc (Suc n)]"
      using assms n by (simp add: take_upt)
    then show ?thesis
      by (simp add: compute_folds_def n take_map)
  qed
  show ?thesis
    using compute_loop_short [of 2 anc "length cs" cs "qc @ [CCX (cs ! 0) (cs ! 1) (anc ! 0)]"] assms s
    unfolding t by (simp add: ccx_v_chain_compute_def)
qed

lemma compute_empty_pool:
  "ccx_v_chain_compute qc cs [] = (Some IndexError, qc)"
  by (simp add: ccx_v_chain_compute_def subscript_def split: option.split)

lemma uncompute_loop_ok:
  "2 \<le> j \<Longrightarrow> j \<le> length cs \<Longrightarrow> m < length anc \<Longrightarrow> j \<le> m + 2 \<Longrightarrow>
   uncompute_loop cs anc (rev [2 ..< j]) (int m) qc =
     (Inr (int (m + 2 - j)),
      qc @ map (\<lambda>i. CCX (cs ! i) (anc ! (m + i - j)) (anc ! (m + i + 1 - j))) (rev [2 ..< j]))"
proof (induction j arbitrary: m qc)
  case 0
  then show ?case by simp
next
  case (Suc j)
  show ?case
  proof (cases "j < 2")
    case True
    then have "Suc j = 2" using Suc.prems by simp
    then show ?thesis by simp
  next
    case False
    then have j: "2 \<le> j" "j < length cs" using Suc.prems by simp_all
    obtain m' where m: "m = Suc m'" using Suc.prems j by (cases m) auto
    let ?g = "CCX (cs ! j) (anc ! m') (anc ! m)"
    have a1: "subscript cs (int j) = Some (cs ! j)"
      using j by (simp add: subscript_nat)
    have a2: "subscript anc (int m') = Some (anc ! m')"
      using Suc.prems m by (simp add: subscript_nat)
    have a3: "subscript anc (int m) = Some (anc ! m)"
      using Suc.prems by (simp add: subscript_nat)
    have e: "int m - 1 = int m'" using m by simp
    have r: "rev [2 ..< Suc j] = j # rev [2 ..< j]"
      using j by simp
    have step: "uncompute_loop cs anc (j # rev [2 ..< j]) (int m) qc =
                uncompute_loop cs anc (rev [2 ..< j]) (int m') (qc @ [?g])"
      by (simp only: uncompute_loop.simps a1 a2 a3 option.case e)
    have ih: "uncompute_loop cs anc (rev [2 ..< j]) (int m') (qc @ [?g]) =
       (Inr (int (m' + 2 - j)),
        (qc @ [?g]) @ map (\<lambda>i. CCX (cs ! i) (anc ! (m' + i - j)) (anc ! (m' + i + 1 - j))) (rev [2 ..< j]))"
      using Suc.IH [of m' "qc @ [?g]"] j Suc.prems m by simp
    have f: "int (m' + 2 - j) = int (m + 2 - Suc j)" using m by simp
    have g: "map (\<lambda>i. CCX (cs ! i) (anc ! (m' + i - j)) (anc ! (m' + i + 1 - j))) (rev [2 ..< j])
           = map (\<lambda>i. CCX (cs ! i) (anc ! (m + i - Suc j)) (anc ! (m + i + 1 - Suc j))) (rev [2 ..< j])"
      using m by simp
    have h: "?g = CCX (cs ! j) (anc ! (m + j - Suc j)) (anc ! (m + j + 1 - Suc j))"
      using m by simp
    show ?thesis
      unfolding r step ih f g by (simp add: h)
  qed
qed

lemma uncompute_ok:
  assumes "2 \<le> length cs" "length cs \<le> Suc (length anc)"
  shows "ccx_v_chain_uncompute qc cs anc = (None, qc @ uncompute_folds cs anc)"
proof -
  obtain n where n: "length anc = Suc n" using assms by (cases "length anc") auto
  have s: "subscript cs 0 = Some (cs ! 0)" "subscript cs 1 = Some (cs ! 1)"
    using assms by (auto simp: subscript_def)
  have e: "int (length anc) - 1 = int n" using n by simp
  have a: "subscript anc (int (n + 2 - length cs)) = Some (anc ! (n + 2 - length cs))"
    using assms n by (intro subscript_nat) simp
  have l: "uncompute_loop cs anc (rev [2 ..< length cs]) (int n) qc =
     (Inr (int (n + 2 - length cs)),
      qc @ map (\<lambda>i. CCX (cs ! i) (anc ! (n + i - length cs)) (anc ! (n + i + 1 - length cs)))
             (rev [2 ..< length cs]))"
    using uncompute_loop_ok [of "length cs" cs n anc qc] assms n by simp
  have u: "uncompute_folds cs anc =
      map (\<lambda>i. CCX (cs ! i) (anc ! (n + i - length cs)) (anc ! (n + i + 1 - length cs)))
             (rev [2 ..< length cs]) @ [CCX (cs ! 0) (cs ! 1) (anc ! (n + 2 - length cs))]"
    unfolding uncompute_folds_def n by simp
  show ?thesis
    unfolding ccx_v_chain_uncompute_def e l u
    by (simp only: s a option.case prod.case sum.case append_assoc)
qed

lemma apply_targets_ok:
  "anc \<noteq> [] \<Longrightarrow>
   apply_targets anc (int (length anc)) ts qc = (None, qc @ map (CGate (last anc)) ts)"
proof (induction ts arbitrary: qc)
  case Nil
  then show ?case by simp
next
  case (Cons t ts)
  have "subscript anc (int (length anc) - 1) = Some (last anc)"
    using Cons.prems by (cases anc rule: rev_cases) (simp_all add: subscript_def)
  then show ?case using Cons by simp
qed

lemma uncompute_folds_exact:
  "2 \<le> length cs \<Longrightarrow> length cs = Suc (length anc) \<Longrightarrow>
   uncompute_folds cs anc = rev (compute_folds cs anc)"
proof -
  assume a: "2 \<le> length cs" "length cs = Suc (length anc)"
  have "map (\<lambda>i. CCX (cs ! i) (anc ! (length anc + i - length cs - 1)) (anc ! (length anc + i - length cs))) [2 ..< length cs]
      = map (\<lambda>i. CCX (cs ! i) (anc ! (i - 2)) (anc ! (i - 1))) [2 ..< length cs]"
  proof (rule map_cong [OF refl])
    fix i assume "i \<in> set [2 ..< length cs]"
    then have i: "2 \<le> i" by simp
    have "length anc + i - length cs - 1 = i - 2" "length anc + i - length cs = i - 1"
      using a i by simp_all
    then show "CCX (cs ! i) (anc ! (length anc + i - length cs - 1)) (anc ! (length anc + i - length cs))
        = CCX (cs ! i) (anc ! (i - 2)) (anc ! (i - 1))" by simp
  qed
  moreover have "length anc + 1 - length cs = 0" using a by simp
  ultimately show ?thesis
    unfolding uncompute_folds_def compute_folds_def by (simp add: rev_map)
qed

subsection \<open>The orchestrator on accepted inputs\<close>

lemma mcmt_basic_ok:
  assumes "qubits_of q_controls = Some cs" "qubits_of q_targets = Some ts"
    and "ancillae_of q_ancillae = Some anc"
    and "list_all chk (cs @ ts @ anc)" "distinct (cs @ ts @ anc)"
    and "2 \<le> length cs" "length cs \<le> Suc (length anc)"
  shows "mcmt chk qc q_controls q_ancillae q_targets ''basic'' =
           (None, qc @ compute_folds cs anc @ map (CGate (last anc)) ts @ uncompute_folds cs anc)"
proof -
  have ne: "anc \<noteq> []" using assms(6,7) by auto
  have k: "length cs \<noteq> 1" using assms(6) by simp
  show ?thesis
    unfolding mcmt_def using assms(1-5) k
    by (simp add: check_dups_def compute_ok [OF assms(6,7)] apply_targets_ok [OF ne]
        uncompute_ok [OF assms(6,7)])
qed

lemma mcmt_basic_short:
  assumes "qubits_of q_controls = Some cs" "qubits_of q_targets = Some ts"
    and "ancillae_of q_ancillae = Some anc"
    and "list_all chk (cs @ ts @ anc)" "distinct (cs @ ts @ anc)"
    and "1 \<le> length anc" "Suc (length anc) < length cs"
  shows "mcmt chk qc q_controls q_ancillae q_targets ''basic'' =
           (Some AssertionError_ancilla, qc @ take (length anc) (compute_folds cs anc))"
proof -
  have k: "length cs \<noteq> 1" using assms(6,7) by simp
  show ?thesis
    unfolding mcmt_def using assms(1-5) k
    by (simp add: check_dups_def compute_short [OF assms(6,7)])
qed

lemma mcmt_basic_empty_pool:
  assumes "qubits_of q_controls = Some cs" "qubits_of q_targets = Some ts"
    and "ancillae_of q_ancillae = Some []"
    and "list_all chk (cs @ ts)" "distinct (cs @ ts)"
    and "length cs \<noteq> 1"
  shows "mcmt chk qc q_controls q_ancillae q_targets ''basic'' = (Some IndexError, qc)"
  unfolding mcmt_def using assms
  by (simp add: check_dups_def compute_empty_pool)

lemma mcmt_single:
  assumes "qubits_of q_controls = Some [c]" "qubits_of q_targets = Some ts"
    and "ancillae_of q_ancillae = Some anc"
    and "list_all chk (c # ts @ anc)" "distinct (c # ts @ anc)"
  shows "mcmt chk qc q_controls q_ancillae q_targets mode = (None, qc @ map (CGate c) ts)"
  unfolding mcmt_def using assms
  by (simp add: check_dups_def)

lemma mcmt_other_mode:
  assumes "qubits_of q_controls = Some cs" "qubits_of q_targets = Some ts"
    and "ancillae_of q_ancillae = Some anc"
    and "list_all chk (cs @ ts @ anc)" "distinct (cs @ ts @ anc)"
    and "length cs \<noteq> 1" "mode \<noteq> ''basic''"
  shows "mcmt chk qc q_controls q_ancillae q_targets mode = (Some ValueError_mode, qc)"
  unfolding mcmt_def using assms
  by (simp add: check_dups_def)

lemma compute_loop_errors:
  "compute_loop cs anc idxs a qc = (Some e, qc') \<Longrightarrow> e = AssertionError_ancilla \<or> e = IndexError"
  by (induction idxs arbitrary: a qc) (auto split: if_splits option.splits)

lemma compute_errors:
  "ccx_v_chain_compute qc cs anc = (Some e, qc') \<Longrightarrow> e = AssertionError_ancilla \<or> e = IndexError"
  unfolding ccx_v_chain_compute_def
  by (auto split: option.splits dest: compute_loop_errors)

lemma apply_targets_errors:
  "apply_targets anc n ts qc = (Some e, qc') \<Longrightarrow> e = IndexError"
  by (induction ts arbitrary: qc) (auto split: option.splits)

lemma uncompute_loop_errors:
  "uncompute_loop cs anc idxs a qc = (Inl e, qc') \<Longrightarrow> e = IndexError"
  by (induction idxs arbitrary: a qc) (auto split: option.splits)

lemma uncompute_errors:
  "ccx_v_chain_uncompute qc cs anc = (Some e, qc') \<Longrightarrow> e = IndexError"
  unfolding ccx_v_chain_uncompute_def
  by (auto split: option.splits sum.splits prod.splits dest: uncompute_loop_errors)

lemma mcmt_error_after_emission:
  assumes "mcmt chk qc q_controls q_ancillae q_targets mode = (Some e, qc')"
    and "e \<noteq> AssertionError_ancilla" "e \<noteq> IndexError"
  shows "qc' = qc"
  using assms unfolding mcmt_def
  by (auto split: option.splits if_splits prod.splits
      dest: compute_errors apply_targets_errors uncompute_errors)

lemma mcmt_success_checked:
  assumes "qubits_of q_controls = Some cs" "qubits_of q_targets = Some ts"
    and "ancillae_of q_ancillae = Some anc"
    and "fst (mcmt chk qc q_controls q_ancillae q_targets mode) = None"
  shows "list_all chk (cs @ ts @ anc) \<and> distinct (cs @ ts @ anc)"
proof (rule ccontr)
  assume "\<not> ?thesis"
  then have "fst (mcmt chk qc q_controls q_ancillae q_targets mode) \<noteq> None"
    unfolding mcmt_def using assms(1-3) by (auto simp: check_dups_def)
  then show False using assms(4) by simp
qed

lemma mcmt_basic_success_iff:
  assumes "qubits_of q_controls = Some cs" "qubits_of q_targets = Some ts"
    and "ancillae_of q_ancillae = Some anc"
    and "list_all chk (cs @ ts @ anc)" "distinct (cs @ ts @ anc)"
    and "2 \<le> length cs"
  shows "(fst (mcmt chk qc q_controls q_ancillae q_targets ''basic'') = None)
           = (length cs \<le> Suc (length anc))"
    and "(fst (mcmt chk qc q_controls q_ancillae q_targets ''basic'') = Some AssertionError_ancilla)
           = (1 \<le> length anc \<and> Suc (length anc) < length cs)"
proof -
  have "((fst (mcmt chk qc q_controls q_ancillae q_targets ''basic'') = None)
           = (length cs \<le> Suc (length anc))) \<and>
    ((fst (mcmt chk qc q_controls q_ancillae q_targets ''basic'') = Some AssertionError_ancilla)
           = (1 \<le> length anc \<and> Suc (length anc) < length cs))"
  proof (cases "length cs \<le> Suc (length anc)")
    case True
    then show ?thesis using mcmt_basic_ok [OF assms(1-5) assms(6) True, of qc] by simp
  next
    case False
    then have long: "Suc (length anc) < length cs" by simp
    show ?thesis
    proof (cases "anc = []")
      case True
      have "mcmt chk qc q_controls q_ancillae q_targets ''basic'' = (Some IndexError, qc)"
        using mcmt_basic_empty_pool [of q_controls cs q_targets ts q_ancillae chk qc] assms True
        by simp
      then show ?thesis using True long by simp
    next
      case False
      then have ne: "1 \<le> length anc" by (cases anc) simp_all
      show ?thesis using mcmt_basic_short [OF assms(1-5) ne long, of qc] ne long by simp
    qed
  qed
  then show "(fst (mcmt chk qc q_controls q_ancillae q_targets ''basic'') = None)
           = (length cs \<le> Suc (length anc))"
    and "(fst (mcmt chk qc q_controls q_ancillae q_targets ''basic'') = Some AssertionError_ancilla)
           = (1 \<le> length anc \<and> Suc (length anc) < length cs)" by simp_all
qed

lemma length_compute_folds: "2 \<le> length cs \<Longrightarrow> length (compute_folds cs anc) = length cs - 1"
  by (simp add: compute_folds_def)

lemma length_uncompute_folds: "2 \<le> length cs \<Longrightarrow> length (uncompute_folds cs anc) = length cs - 1"
  by (simp add: uncompute_folds_def)

lemma is_ccx_compute_folds: "list_all is_ccx (compute_folds cs anc)"
  by (simp add: compute_folds_def list_all_iff)

lemma is_ccx_uncompute_folds: "list_all is_ccx (uncompute_folds cs anc)"
  by (simp add: uncompute_folds_def list_all_iff)

subsection \<open>Running an emitted sequence\<close>

lemma exec_append: "exec f (xs @ ys) s = exec f ys (exec f xs s)"
  by (simp add: exec_def)

lemma exec_Cons: "exec f (g # gs) s = exec f gs (exec_gate f g s)"
  by (simp add: exec_def)

lemma exec_Nil: "exec f [] s = s"
  by (simp add: exec_def)

lemma exec_gate_unwritten: "q \<noteq> written g \<Longrightarrow> exec_gate f g s q = s q"
  by (cases g) simp_all

lemma exec_unwritten: "q \<notin> written ` set gs \<Longrightarrow> exec f gs s q = s q"
proof (induction gs arbitrary: s)
  case Nil
  then show ?case by (simp add: exec_Nil)
next
  case (Cons g gs)
  then have "q \<noteq> written g" "q \<notin> written ` set gs" by auto
  then show ?case using Cons.IH [of "exec_gate f g s"]
    by (simp add: exec_Cons exec_gate_unwritten)
qed

lemma exec_gate_agree:
  assumes "gate_qubits g \<subseteq> Q" "\<forall>q\<in>Q. s1 q = s2 q"
  shows "\<forall>q\<in>Q. exec_gate f g s1 q = exec_gate f g s2 q"
  using assms by (cases g) auto

lemma exec_agree:
  "\<forall>g\<in>set gs. gate_qubits g \<subseteq> Q \<Longrightarrow> \<forall>q\<in>Q. s1 q = s2 q \<Longrightarrow>
   \<forall>q\<in>Q. exec f gs s1 q = exec f gs s2 q"
proof (induction gs arbitrary: s1 s2)
  case Nil
  then show ?case by (simp add: exec_Nil)
next
  case (Cons g gs)
  have "\<forall>q\<in>Q. exec_gate f g s1 q = exec_gate f g s2 q"
    using exec_gate_agree [of g Q s1 s2 f] Cons.prems by simp
  then show ?case
    using Cons.IH [of "exec_gate f g s1" "exec_gate f g s2"] Cons.prems
    by (simp add: exec_Cons)
qed

lemma ccx_twice: "ccx_proper g \<Longrightarrow> exec_gate f g (exec_gate f g s) = s"
  by (cases g) (auto simp: fun_eq_iff)

lemma exec_rev_inverse: "list_all ccx_proper gs \<Longrightarrow> exec f (rev gs) (exec f gs s) = s"
proof (induction gs arbitrary: s)
  case Nil
  then show ?case by (simp add: exec_Nil)
next
  case (Cons g gs)
  then have "exec f (rev gs) (exec f gs (exec_gate f g s)) = exec_gate f g s" by simp
  then show ?case using Cons.prems
    by (simp add: exec_Cons exec_append exec_Nil ccx_twice)
qed

lemma exec_targets:
  "a \<notin> set ts \<Longrightarrow> distinct ts \<Longrightarrow> t \<in> set ts \<Longrightarrow>
   exec f (map (CGate a) ts) s t = (if s a then f (s t) else s t)"
proof (induction ts arbitrary: s)
  case Nil
  then show ?case by simp
next
  case (Cons u ts)
  let ?s = "exec_gate f (CGate a u) s"
  show ?case
  proof (cases "t = u")
    case True
    then have "t \<notin> written ` set (map (CGate a) ts)" using Cons.prems by auto
    then have "exec f (map (CGate a) ts) ?s t = ?s t" by (rule exec_unwritten)
    then show ?thesis using True by (simp add: exec_Cons)
  next
    case False
    have e1: "exec f (map (CGate a) ts) ?s t = (if ?s a then f (?s t) else ?s t)"
      using False Cons by simp
    have e2: "?s a = s a" and e3: "?s t = s t" using False Cons.prems by auto
    have "exec f (map (CGate a) (u # ts)) s t = exec f (map (CGate a) ts) ?s t"
      by (simp only: list.map exec_Cons)
    also have "\<dots> = (if ?s a then f (?s t) else ?s t)" by (rule e1)
    also have "\<dots> = (if s a then f (s t) else s t)" by (simp only: e2 e3)
    finally show ?thesis .
  qed
qed

subsection \<open>What the compute chain leaves on the ancillae\<close>

lemma nth_not_in_take:
  "distinct xs \<Longrightarrow> n < length xs \<Longrightarrow> xs ! n \<notin> set (take n xs)"
  by (auto simp: in_set_conv_nth nth_eq_iff_index_eq)

lemma written_compute_folds:
  assumes "2 \<le> j" "j \<le> Suc (length anc)"
  shows "written ` set (CCX (cs ! 0) (cs ! 1) (anc ! 0) #
           map (\<lambda>i. CCX (cs ! i) (anc ! (i - 2)) (anc ! (i - 1))) [2 ..< j])
         \<subseteq> set (take (j - 1) anc)"
proof -
  have "anc ! i \<in> set (take (j - 1) anc)" if "i < j - 1" for i
  proof -
    have "take (j - 1) anc ! i = anc ! i" using that by simp
    moreover have "i < length (take (j - 1) anc)" using that assms by simp
    ultimately show ?thesis by (metis nth_mem)
  qed
  then show ?thesis using assms by auto
qed

lemma compute_prefix_and:
  assumes "distinct (cs @ anc)" "\<forall>a\<in>set anc. \<not> s a"
  shows "2 \<le> j \<Longrightarrow> j \<le> length cs \<Longrightarrow> j \<le> Suc (length anc) \<Longrightarrow>
    exec f (CCX (cs ! 0) (cs ! 1) (anc ! 0) #
           map (\<lambda>i. CCX (cs ! i) (anc ! (i - 2)) (anc ! (i - 1))) [2 ..< j]) s (anc ! (j - 2))
      = (\<forall>i<j. s (cs ! i))"
proof (induction j)
  case 0
  then show ?case by simp
next
  case (Suc j)
  let ?G = "\<lambda>i. CCX (cs ! i) (anc ! (i - 2)) (anc ! (i - 1))"
  let ?chain = "\<lambda>j. CCX (cs ! 0) (cs ! 1) (anc ! 0) # map ?G [2 ..< j]"
  show ?case
  proof (cases "j < 2")
    case True
    then have j: "Suc j = 2" using Suc.prems by simp
    have "0 < length anc" using Suc.prems j by (cases anc) simp_all
    then have "anc ! 0 \<in> set anc" by (rule nth_mem)
    then have "\<not> s (anc ! 0)" using assms(2) by blast
    moreover have "(\<forall>i<2. s (cs ! i)) = (s (cs ! 0) \<and> s (cs ! 1))"
      by (auto simp: less_Suc_eq numeral_2_eq_2)
    ultimately show ?thesis unfolding j by (simp add: exec_Cons exec_Nil)
  next
    case False
    then have j: "2 \<le> j" "j < length cs" "j \<le> length anc" using Suc.prems by simp_all
    let ?s = "exec f (?chain j) s"
    have ih: "?s (anc ! (j - 2)) = (\<forall>i<j. s (cs ! i))"
      using Suc.IH j by simp
    have split: "?chain (Suc j) = ?chain j @ [?G j]" using j by simp
    have w: "written ` set (?chain j) \<subseteq> set (take (j - 1) anc)"
      using written_compute_folds [of j anc cs] j by simp
    have d: "distinct anc" using assms(1) by simp
    have "anc ! (j - 1) \<notin> set (take (j - 1) anc)"
      using nth_not_in_take [OF d, of "j - 1"] j by simp
    then have "?s (anc ! (j - 1)) = s (anc ! (j - 1))"
      using w exec_unwritten [of "anc ! (j - 1)" "?chain j" f s] by blast
    moreover have "anc ! (j - 1) \<in> set anc" using j by simp
    ultimately have t0: "\<not> ?s (anc ! (j - 1))" using assms(2) by blast
    have "cs ! j \<in> set cs" using j by simp
    then have "cs ! j \<notin> set anc" using assms(1) by auto
    then have "cs ! j \<notin> set (take (j - 1) anc)" by (meson in_set_takeD)
    then have c: "?s (cs ! j) = s (cs ! j)"
      using w exec_unwritten [of "cs ! j" "?chain j" f s] by blast
    have "exec f (?chain (Suc j)) s (anc ! (Suc j - 2))
           = exec_gate f (?G j) ?s (anc ! (j - 1))"
      unfolding split by (simp add: exec_append exec_Cons exec_Nil)
    also have "\<dots> = (?s (anc ! (j - 1)) \<noteq> (?s (cs ! j) \<and> ?s (anc ! (j - 2))))"
      by simp
    also have "\<dots> = (s (cs ! j) \<and> (\<forall>i<j. s (cs ! i)))"
      using t0 c ih by simp
    also have "\<dots> = (\<forall>i<Suc j. s (cs ! i))"
      by (auto simp: less_Suc_eq)
    finally show ?thesis .
  qed
qed

lemma nth_beyond_take:
  "distinct xs \<Longrightarrow> n \<le> j \<Longrightarrow> j < length xs \<Longrightarrow> xs ! j \<notin> set (take n xs)"
  by (auto simp: in_set_conv_nth nth_eq_iff_index_eq)

lemma ccx_proper_compute_folds:
  assumes "distinct (cs @ anc)" "2 \<le> length cs" "length cs \<le> Suc (length anc)"
  shows "list_all ccx_proper (compute_folds cs anc)"
proof -
  have d: "distinct anc" and dj: "set cs \<inter> set anc = {}" using assms(1) by simp_all
  have m: "cs ! i \<noteq> anc ! j" if "i < length cs" "j < length anc" for i j
    using that dj nth_mem [of i cs] nth_mem [of j anc] by (metis disjoint_iff)
  have ln: "0 < length cs" "1 < length cs" "0 < length anc" using assms(2,3) by auto
  have h: "ccx_proper (CCX (cs ! 0) (cs ! 1) (anc ! 0))"
    using m [OF ln(1) ln(3)] m [OF ln(2) ln(3)] by auto
  have "ccx_proper (CCX (cs ! i) (anc ! (i - 2)) (anc ! (i - 1)))"
    if "2 \<le> i" "i < length cs" for i
  proof -
    have "anc ! (i - 1) \<noteq> anc ! (i - 2)"
      using d that assms(3) by (simp add: nth_eq_iff_index_eq)
    moreover have "cs ! i \<noteq> anc ! (i - 1)" using m [of i "i - 1"] that assms(3) by simp
    ultimately show ?thesis by simp
  qed
  then show ?thesis using h by (simp add: compute_folds_def list_all_iff)
qed

lemma gate_qubits_compute_folds:
  assumes "2 \<le> length cs" "length cs \<le> Suc (length anc)" "g \<in> set (compute_folds cs anc)"
  shows "gate_qubits g \<subseteq> set cs \<union> set anc"
proof -
  have ln: "0 < length cs" "1 < length cs" "0 < length anc" using assms(1,2) by auto
  have "cs ! 0 \<in> set cs" "cs ! 1 \<in> set cs" "anc ! 0 \<in> set anc"
    using nth_mem [OF ln(1)] nth_mem [OF ln(2)] nth_mem [OF ln(3)] by simp_all
  moreover have "cs ! i \<in> set cs \<and> anc ! (i - 2) \<in> set anc \<and> anc ! (i - 1) \<in> set anc"
    if "2 \<le> i" "i < length cs" for i using that assms(2) by simp
  ultimately show ?thesis using assms(3) by (auto simp: compute_folds_def)
qed

lemma written_compute_folds_pool:
  assumes "2 \<le> length cs" "length cs \<le> Suc (length anc)"
  shows "written ` set (compute_folds cs anc) \<subseteq> set (take (length cs - 1) anc)"
  using written_compute_folds [of "length cs" anc cs] assms by (simp add: compute_folds_def)

lemma compute_folds_and:
  assumes "distinct (cs @ anc)" "\<forall>a\<in>set anc. \<not> s a"
    and "2 \<le> length cs" "length cs \<le> Suc (length anc)"
  shows "exec f (compute_folds cs anc) s (anc ! (length cs - 2)) = list_all s cs"
  using compute_prefix_and [OF assms(1,2), of "length cs" f] assms(3,4)
  by (simp add: compute_folds_def list_all_length)

lemma exact_pool_restores:
  assumes "distinct (cs @ ts @ anc)" "2 \<le> length cs" "length cs = Suc (length anc)"
    and "q \<notin> set ts"
  shows "exec f (compute_folds cs anc @ map (CGate (last anc)) ts @ uncompute_folds cs anc) s q
           = s q"
proof -
  let ?gs = "compute_folds cs anc" and ?tg = "map (CGate (last anc)) ts"
  let ?s1 = "exec f ?gs s"
  let ?s2 = "exec f ?tg ?s1"
  have le: "length cs \<le> Suc (length anc)" using assms(3) by simp
  have dca: "distinct (cs @ anc)" using assms(1) by auto
  have u: "uncompute_folds cs anc = rev ?gs"
    using uncompute_folds_exact [OF assms(2,3)] .
  have sub: "\<forall>g\<in>set (rev ?gs). gate_qubits g \<subseteq> - set ts"
  proof
    fix g assume "g \<in> set (rev ?gs)"
    then have "gate_qubits g \<subseteq> set cs \<union> set anc"
      using gate_qubits_compute_folds [OF assms(2) le] by simp
    then show "gate_qubits g \<subseteq> - set ts" using assms(1) by auto
  qed
  have ag: "\<forall>q\<in>- set ts. ?s2 q = ?s1 q"
  proof
    fix q assume "q \<in> - set ts"
    then have "q \<notin> written ` set ?tg" by auto
    then show "?s2 q = ?s1 q" by (rule exec_unwritten)
  qed
  have "\<forall>q\<in>- set ts. exec f (rev ?gs) ?s2 q = exec f (rev ?gs) ?s1 q"
    using exec_agree [OF sub ag] .
  then have "exec f (rev ?gs) ?s2 q = exec f (rev ?gs) ?s1 q" using assms(4) by simp
  also have "\<dots> = s q"
    using exec_rev_inverse [OF ccx_proper_compute_folds [OF dca assms(2) le], of f s] by simp
  finally show ?thesis unfolding u by (simp add: exec_append)
qed

lemma exact_pool_target:
  assumes "distinct (cs @ ts @ anc)" "2 \<le> length cs" "length cs = Suc (length anc)"
    and "\<forall>a\<in>set anc. \<not> s a" "t \<in> set ts"
  shows "exec f (compute_folds cs anc @ map (CGate (last anc)) ts @ uncompute_folds cs anc) s t
           = (if list_all s cs then f (s t) else s t)"
proof -
  let ?gs = "compute_folds cs anc" and ?tg = "map (CGate (last anc)) ts"
  let ?s1 = "exec f ?gs s"
  let ?s2 = "exec f ?tg ?s1"
  have le: "length cs \<le> Suc (length anc)" using assms(3) by simp
  have dca: "distinct (cs @ anc)" using assms(1) by auto
  have ne: "anc \<noteq> []" using assms(2,3) by auto
  have u: "uncompute_folds cs anc = rev ?gs"
    using uncompute_folds_exact [OF assms(2,3)] .
  have w: "written ` set ?gs \<subseteq> set anc"
    using written_compute_folds_pool [OF assms(2) le] by (meson in_set_takeD subset_iff)
  have tn: "t \<notin> set anc" using assms(1,5) by auto
  then have t1: "t \<notin> written ` set ?gs" and t2: "t \<notin> written ` set (rev ?gs)"
    using w by auto
  have la: "last anc = anc ! (length cs - 2)"
    using ne assms(3) by (simp add: last_conv_nth)
  have "last anc \<in> set anc" using ne by simp
  then have an: "last anc \<notin> set ts" using assms(1) by auto
  have dt: "distinct ts" using assms(1) by simp
  have "exec f (rev ?gs) ?s2 t = ?s2 t" using t2 by (rule exec_unwritten)
  also have "\<dots> = (if ?s1 (last anc) then f (?s1 t) else ?s1 t)"
    using exec_targets [OF an dt assms(5)] .
  also have "\<dots> = (if list_all s cs then f (s t) else s t)"
    using compute_folds_and [OF dca assms(4) assms(2) le, of f] exec_unwritten [OF t1, of f s]
    unfolding la by simp
  finally show ?thesis unfolding u by (simp add: exec_append)
qed

lemma single_control_effect:
  assumes "distinct (c # ts)"
  shows "exec f (map (CGate c) ts) s q = (if q \<in> set ts \<and> s c then f (s q) else s q)"
proof (cases "q \<in> set ts")
  case True
  then show ?thesis using exec_targets [of c ts q f s] assms by simp
next
  case False
  then have "q \<notin> written ` set (map (CGate c) ts)" by auto
  then show ?thesis using False exec_unwritten [of q "map (CGate c) ts" f s] by simp
qed

section \<open>The claims\<close>

text \<open>
  C10.  At the public interface, \<open>None\<close> for the ancillae is accepted and behaves exactly
  like an empty pool.  A controls or targets argument that is neither a list nor a
  register, and an ancilla argument that is none of \<open>None\<close>, a list or a register,
  raises the corresponding \<open>ValueError\<close> whatever the qubit check says and with the
  circuit unchanged: the argument checks run before any qubit validation or emission.
\<close>

theorem mcmt_argument_kinds:
  "mcmt chk qc q_controls PyNone q_targets mode = mcmt chk qc q_controls (PyList []) q_targets mode
   \<and> mcmt chk qc PyNone q_ancillae q_targets mode = (Some ValueError_controls, qc)
   \<and> mcmt chk qc PyOther q_ancillae q_targets mode = (Some ValueError_controls, qc)
   \<and> mcmt chk qc (PyList cs) q_ancillae PyNone mode = (Some ValueError_targets, qc)
   \<and> mcmt chk qc (PyList cs) q_ancillae PyOther mode = (Some ValueError_targets, qc)
   \<and> mcmt chk qc (PyRegister cs) q_ancillae PyNone mode = (Some ValueError_targets, qc)
   \<and> mcmt chk qc (PyRegister cs) q_ancillae PyOther mode = (Some ValueError_targets, qc)
   \<and> mcmt chk qc (PyList cs) PyOther (PyList ts) mode = (Some ValueError_ancilla, qc)
   \<and> mcmt chk qc (PyList cs) PyOther (PyRegister ts) mode = (Some ValueError_ancilla, qc)
   \<and> mcmt chk qc (PyRegister cs) PyOther (PyList ts) mode = (Some ValueError_ancilla, qc)
   \<and> mcmt chk qc (PyRegister cs) PyOther (PyRegister ts) mode = (Some ValueError_ancilla, qc)"
  by (simp add: mcmt_def split: option.split)

text \<open>
  C9.  With exactly one control and the qubits accepted and distinct, the call appends
  one primitive operation per target, each conditioned on the sole control, in target
  order, and none of the appended operations mentions an ancilla, whatever pool was
  supplied.
\<close>

theorem mcmt_single_control:
  assumes "qubits_of q_controls = Some [c]" "qubits_of q_targets = Some ts"
    and "ancillae_of q_ancillae = Some anc"
    and "list_all chk (c # ts @ anc)" "distinct (c # ts @ anc)"
  shows "mcmt chk qc q_controls q_ancillae q_targets mode = (None, qc @ map (CGate c) ts)
         \<and> (\<forall>g \<in> set (map (CGate c) ts). gate_qubits g \<inter> set anc = {})"
proof
  show "mcmt chk qc q_controls q_ancillae q_targets mode = (None, qc @ map (CGate c) ts)"
    using assms by (rule mcmt_single)
  show "\<forall>g \<in> set (map (CGate c) ts). gate_qubits g \<inter> set anc = {}"
    using assms(5) by auto
qed

theorem mcmt_single_control_witness:
  "qubits_of (PyList [0]) = Some [0] \<and> qubits_of (PyRegister [1, 2]) = Some [1, 2]
   \<and> ancillae_of (PyList [3, 4]) = Some [3, 4]
   \<and> list_all accept_all (0 # [1, 2] @ [3, 4]) \<and> distinct (0 # [1, 2] @ [3, 4 :: qubit])
   \<and> mcmt accept_all [CCX 7 8 9] (PyList [0]) (PyList [3, 4]) (PyRegister [1, 2]) ''basic''
       = (None, [CCX 7 8 9, CGate 0 1, CGate 0 2])
   \<and> gate_qubits (CGate 0 1) \<inter> set [3, 4] = {}
   \<and> gate_qubits (CGate 0 2) \<inter> set [3, 4] = {}"
  using mcmt_single_control [of "PyList [0]" 0 "PyRegister [1, 2]" "[1, 2]" "PyList [3, 4]" "[3, 4]"
      accept_all "[CCX 7 8 9]" "''basic''"]
  by (simp add: accept_all_def)

text \<open>
  C6.  The claim that every mode other than \<open>basic\<close> is refused fails for a single
  control: that case returns before the mode is looked at.
\<close>

theorem mcmt_single_control_ignores_mode:
  "mcmt accept_all [] (PyList [0]) (PyList []) (PyList [1]) ''other'' = (None, [CGate 0 1])
   \<and> mcmt accept_all [] (PyList [0]) (PyList []) (PyList [1]) ''other'' \<noteq> (Some ValueError_mode, [])"
  by (simp add: mcmt_def accept_all_def check_dups_def)

text \<open>
  C6, as amended.  With accepted, distinct qubits and a mode other than \<open>basic\<close>: when
  the number of controls is not one the call fails with the unsupported-mode error and
  the circuit is unchanged; with exactly one control the mode is not consulted and the
  call appends one primitive operation per target.
\<close>

theorem mcmt_unsupported_mode:
  assumes "qubits_of q_controls = Some cs" "qubits_of q_targets = Some ts"
    and "ancillae_of q_ancillae = Some anc"
    and "list_all chk (cs @ ts @ anc)" "distinct (cs @ ts @ anc)"
    and "mode \<noteq> ''basic''"
  shows "(length cs \<noteq> 1 \<longrightarrow>
            mcmt chk qc q_controls q_ancillae q_targets mode = (Some ValueError_mode, qc))
       \<and> (length cs = 1 \<longrightarrow>
            mcmt chk qc q_controls q_ancillae q_targets mode
              = (None, qc @ map (CGate (hd cs)) ts))"
  unfolding mcmt_def using assms by (simp add: check_dups_def)

theorem mcmt_unsupported_mode_witness:
  "qubits_of (PyList [0, 1]) = Some [0, 1] \<and> qubits_of (PyList [3]) = Some [3]
   \<and> ancillae_of (PyList [2]) = Some [2]
   \<and> list_all accept_all ([0, 1] @ [3] @ [2]) \<and> distinct ([0, 1] @ [3] @ [2 :: qubit])
   \<and> ''other'' \<noteq> ''basic'' \<and> length [0 :: qubit, 1] \<noteq> 1
   \<and> mcmt accept_all [CCX 7 8 9] (PyList [0, 1]) (PyList [2]) (PyList [3]) ''other''
       = (Some ValueError_mode, [CCX 7 8 9])"
  using mcmt_unsupported_mode [of "PyList [0, 1]" "[0, 1]" "PyList [3]" "[3]" "PyList [2]" "[2]"
      accept_all "''other''" "[CCX 7 8 9]"]
  by (simp add: accept_all_def)

text \<open>
  C3.  The claim that a pool of exactly \<open>k - 2\<close> ancillae is accepted fails: with four
  controls and two ancillae the compute chain raises its assertion.
\<close>

theorem mcmt_pool_of_k_minus_2_refused:
  "mcmt accept_all [] (PyList [0, 1, 2, 3]) (PyList [4, 5]) (PyList [6]) ''basic''
     = (Some AssertionError_ancilla, [CCX 0 1 4, CCX 2 4 5])
   \<and> \<not> (length [4 :: qubit, 5] < length [0 :: qubit, 1, 2, 3] - 2)"
  by (simp add: mcmt_def accept_all_def check_dups_def ccx_v_chain_compute_def subscript_def)

text \<open>
  C3, as amended.  With accepted, distinct qubits, \<open>k \<ge> 2\<close> controls and mode \<open>basic\<close>,
  the call completes without error exactly when the pool has at least \<open>k - 1\<close>
  ancillae, and it fails with the insufficient-ancilla assertion exactly when the pool
  is non-empty and has fewer than \<open>k - 1\<close> ancillae.
\<close>

theorem mcmt_basic_pool_size:
  assumes "qubits_of q_controls = Some cs" "qubits_of q_targets = Some ts"
    and "ancillae_of q_ancillae = Some anc"
    and "list_all chk (cs @ ts @ anc)" "distinct (cs @ ts @ anc)"
    and "2 \<le> length cs"
  shows "((fst (mcmt chk qc q_controls q_ancillae q_targets ''basic'') = None)
            = (length cs - 1 \<le> length anc))
       \<and> ((fst (mcmt chk qc q_controls q_ancillae q_targets ''basic'') = Some AssertionError_ancilla)
            = (1 \<le> length anc \<and> length anc < length cs - 1))"
proof -
  have "(length cs \<le> Suc (length anc)) = (length cs - 1 \<le> length anc)"
    and "(Suc (length anc) < length cs) = (length anc < length cs - 1)"
    using assms(6) by auto
  then show ?thesis
    using mcmt_basic_success_iff [OF assms, of qc] by simp
qed

theorem mcmt_basic_pool_size_witness:
  "qubits_of (PyList [0, 1, 2]) = Some [0, 1, 2] \<and> qubits_of (PyList [5]) = Some [5]
   \<and> ancillae_of (PyList [3, 4]) = Some [3, 4]
   \<and> list_all accept_all ([0, 1, 2] @ [5] @ [3, 4]) \<and> distinct ([0, 1, 2] @ [5] @ [3, 4 :: qubit])
   \<and> 2 \<le> length [0 :: qubit, 1, 2]
   \<and> fst (mcmt accept_all [] (PyList [0, 1, 2]) (PyList [3, 4]) (PyList [5]) ''basic'') = None
   \<and> fst (mcmt accept_all [] (PyList [0, 1, 2]) (PyList [3, 4]) (PyList [5]) ''basic'')
        \<noteq> Some AssertionError_ancilla"
  using mcmt_basic_pool_size [of "PyList [0, 1, 2]" "[0, 1, 2]" "PyList [5]" "[5]"
      "PyList [3, 4]" "[3, 4]" accept_all "[]"]
  by (simp add: accept_all_def)

text \<open>
  C4.  The claim of all-or-nothing emission fails for the insufficient-ancilla failure:
  the assertion sits inside the compute loop, after the first fold has been appended.
\<close>

theorem mcmt_assertion_after_emission:
  "mcmt accept_all [] (PyList [0, 1, 2]) (PyList [3]) (PyList [4]) ''basic''
     = (Some AssertionError_ancilla, [CCX 0 1 3])
   \<and> snd (mcmt accept_all [] (PyList [0, 1, 2]) (PyList [3]) (PyList [4]) ''basic'') \<noteq> []"
  by (simp add: mcmt_def accept_all_def check_dups_def ccx_v_chain_compute_def subscript_def)

text \<open>
  C4, as amended.  A call that fails with the invalid-qubit, the duplicate-qubit or the
  unsupported-mode error, or with one of the argument errors, leaves the circuit exactly
  as it was before the call.
\<close>

theorem mcmt_validation_errors_emit_nothing:
  assumes "mcmt chk qc q_controls q_ancillae q_targets mode = (Some e, qc')"
    and "e = QiskitError_qubit \<or> e = QiskitError_dups \<or> e = ValueError_mode
         \<or> e = ValueError_controls \<or> e = ValueError_targets \<or> e = ValueError_ancilla"
  shows "qc' = qc"
  using assms(2) mcmt_error_after_emission [OF assms(1)] by auto

theorem mcmt_validation_errors_emit_nothing_witness:
  "mcmt accept_all [CCX 7 8 9] (PyList [0, 1]) (PyList [2]) (PyList [0]) ''basic''
     = (Some QiskitError_dups, [CCX 7 8 9])"
proof -
  have r: "mcmt accept_all [CCX 7 8 9] (PyList [0, 1]) (PyList [2]) (PyList [0]) ''basic''
     = (Some QiskitError_dups, snd (mcmt accept_all [CCX 7 8 9] (PyList [0, 1]) (PyList [2]) (PyList [0]) ''basic''))"
    by (simp add: mcmt_def accept_all_def check_dups_def)
  show ?thesis
    using mcmt_validation_errors_emit_nothing [OF r] r by simp
qed

text \<open>
  C5.  The claimed count of \<open>2(k - 2)\<close> folds fails: two controls already give two folds.
\<close>

theorem mcmt_two_controls_fold_count:
  "mcmt accept_all [] (PyList [0, 1]) (PyList [2]) (PyList [3]) ''basic''
     = (None, [CCX 0 1 2, CGate 2 3, CCX 0 1 2])
   \<and> length (filter is_ccx (snd (mcmt accept_all [] (PyList [0, 1]) (PyList [2]) (PyList [3]) ''basic'')))
       \<noteq> 2 * (length [0 :: qubit, 1] - 2)"
  by (simp add: mcmt_def accept_all_def check_dups_def ccx_v_chain_compute_def
      ccx_v_chain_uncompute_def subscript_def)

text \<open>
  C5, as amended.  For every successful call: with one control the call appends exactly
  one primitive operation per target and nothing else; with \<open>k \<ge> 2\<close> controls and mode
  \<open>basic\<close> it appends \<open>k - 1\<close> compute folds, then one primitive operation per target
  (conditioned on the last ancilla of the pool), then \<open>k - 1\<close> uncompute folds, that is
  \<open>2(k - 1)\<close> folds in all.
\<close>

theorem mcmt_emitted_sequence:
  assumes "qubits_of q_controls = Some cs" "qubits_of q_targets = Some ts"
    and "ancillae_of q_ancillae = Some anc"
    and "fst (mcmt chk qc q_controls q_ancillae q_targets mode) = None"
  shows "(length cs = 1 \<longrightarrow>
            mcmt chk qc q_controls q_ancillae q_targets mode = (None, qc @ map (CGate (hd cs)) ts))
       \<and> (2 \<le> length cs \<and> mode = ''basic'' \<longrightarrow>
            (\<exists>comp unc.
               mcmt chk qc q_controls q_ancillae q_targets mode
                 = (None, qc @ comp @ map (CGate (last anc)) ts @ unc)
               \<and> length comp = length cs - 1 \<and> length unc = length cs - 1
               \<and> list_all is_ccx comp \<and> list_all is_ccx unc))"
proof (intro conjI impI)
  have chk: "list_all chk (cs @ ts @ anc)" "distinct (cs @ ts @ anc)"
    using mcmt_success_checked [OF assms] by simp_all
  {
    assume "length cs = 1"
    then obtain c where c: "cs = [c]" by (cases cs) auto
    show "mcmt chk qc q_controls q_ancillae q_targets mode = (None, qc @ map (CGate (hd cs)) ts)"
      using mcmt_single [of q_controls c q_targets ts q_ancillae anc chk qc mode] assms(1-3) chk c
      by simp
  }
  {
    assume a: "2 \<le> length cs \<and> mode = ''basic''"
    then have k: "2 \<le> length cs" and m: "mode = ''basic''" by simp_all
    have ok: "length cs \<le> Suc (length anc)"
      using mcmt_basic_success_iff(1) [OF assms(1-3) chk k, of qc] assms(4) m by simp
    have "mcmt chk qc q_controls q_ancillae q_targets mode
            = (None, qc @ compute_folds cs anc @ map (CGate (last anc)) ts @ uncompute_folds cs anc)"
      using mcmt_basic_ok [OF assms(1-3) chk k ok, of qc] m by simp
    then show "\<exists>comp unc.
               mcmt chk qc q_controls q_ancillae q_targets mode
                 = (None, qc @ comp @ map (CGate (last anc)) ts @ unc)
               \<and> length comp = length cs - 1 \<and> length unc = length cs - 1
               \<and> list_all is_ccx comp \<and> list_all is_ccx unc"
      using length_compute_folds [OF k] length_uncompute_folds [OF k]
        is_ccx_compute_folds is_ccx_uncompute_folds by blast
  }
qed

theorem mcmt_emitted_sequence_witness:
  "qubits_of (PyList [0, 1, 2]) = Some [0, 1, 2] \<and> qubits_of (PyList [5, 6]) = Some [5, 6]
   \<and> ancillae_of (PyList [3, 4]) = Some [3, 4]
   \<and> fst (mcmt accept_all [] (PyList [0, 1, 2]) (PyList [3, 4]) (PyList [5, 6]) ''basic'') = None
   \<and> 2 \<le> length [0 :: qubit, 1, 2]
   \<and> (\<exists>comp unc.
         mcmt accept_all [] (PyList [0, 1, 2]) (PyList [3, 4]) (PyList [5, 6]) ''basic''
           = (None, comp @ [CGate 4 5, CGate 4 6] @ unc)
         \<and> length comp = 2 \<and> length unc = 2 \<and> list_all is_ccx comp \<and> list_all is_ccx unc)"
proof -
  have s: "fst (mcmt accept_all [] (PyList [0, 1, 2]) (PyList [3, 4]) (PyList [5, 6]) ''basic'') = None"
    by (simp add: mcmt_def accept_all_def check_dups_def ccx_v_chain_compute_def
        ccx_v_chain_uncompute_def subscript_def)
  show ?thesis
    using mcmt_emitted_sequence [of "PyList [0, 1, 2]" "[0, 1, 2]" "PyList [5, 6]" "[5, 6]"
      "PyList [3, 4]" "[3, 4]" accept_all "[]" "''basic''"] s
    by (simp add: numeral_2_eq_2)
qed

text \<open>
  C7.  With a pool larger than the chain needs the primitive operation is conditioned on
  the last ancilla of the pool, which the compute chain never wrote: with three
  controls and the pool \<open>[3, 4, 5]\<close> the chain writes 3 and 4, and the target gate is
  conditioned on 5.
\<close>

theorem mcmt_oversized_pool_control:
  "ccx_v_chain_compute [] [0, 1, 2] [3, 4, 5] = (None, [CCX 0 1 3, CCX 2 3 4])
   \<and> mcmt accept_all [] (PyList [0, 1, 2]) (PyList [3, 4, 5]) (PyList [6]) ''basic''
       = (None, [CCX 0 1 3, CCX 2 3 4, CGate 5 6, CCX 2 4 5, CCX 0 1 4])"
  by (simp add: mcmt_def accept_all_def check_dups_def ccx_v_chain_compute_def
      ccx_v_chain_uncompute_def subscript_def)

text \<open>
  C2.  With a pool larger than the chain needs the uncompute chain does not mirror the
  compute chain: with two controls, both set, and the pool \<open>[2, 3]\<close> the call succeeds
  and ancilla 2, clear before the call, is set after it.
\<close>

theorem mcmt_oversized_pool_not_restored:
  "mcmt accept_all [] (PyList [0, 1]) (PyList [2, 3]) (PyList [4]) ''basic''
     = (None, [CCX 0 1 2, CGate 3 4, CCX 0 1 3])
   \<and> basis_state [0, 1] 2 = False
   \<and> exec Not (snd (mcmt accept_all [] (PyList [0, 1]) (PyList [2, 3]) (PyList [4]) ''basic''))
        (basis_state [0, 1]) 2 = True"
  by (simp add: mcmt_def accept_all_def check_dups_def ccx_v_chain_compute_def
      ccx_v_chain_uncompute_def subscript_def exec_def basis_state_def)

text \<open>
  C1.  The claim fails for a pool the spec calls valid: with three controls, all set, and
  one ancilla (\<open>k - 2\<close>) the call stops at the assertion after one fold, and the emitted
  sequence leaves the target as it was.
\<close>

theorem mcmt_pool_of_k_minus_2_no_effect:
  "mcmt accept_all [] (PyList [0, 1, 2]) (PyList [3]) (PyList [4, 5]) ''basic''
     = (Some AssertionError_ancilla, [CCX 0 1 3])
   \<and> length [0 :: qubit, 1, 2] - 2 \<le> length [3 :: qubit]
   \<and> list_all (basis_state [0, 1, 2]) [0, 1, 2]
   \<and> exec Not (snd (mcmt accept_all [] (PyList [0, 1, 2]) (PyList [3]) (PyList [4, 5]) ''basic''))
        (basis_state [0, 1, 2]) 4 \<noteq> Not (basis_state [0, 1, 2] 4)"
  by (simp add: mcmt_def accept_all_def check_dups_def ccx_v_chain_compute_def subscript_def
      exec_def basis_state_def)

text \<open>
  C1, as amended.  With accepted, distinct qubits, mode \<open>basic\<close>, the ancillae clear in
  the initial state, and either one control or \<open>k \<ge> 2\<close> controls with exactly \<open>k - 1\<close>
  ancillae, the call succeeds and the emitted sequence applies the target's truth
  table \<open>f\<close> to every target exactly when all controls are set; every other qubit (the
  controls and the ancillae) has its initial value at the end.
\<close>

theorem mcmt_classical_effect:
  assumes "qubits_of q_controls = Some cs" "qubits_of q_targets = Some ts"
    and "ancillae_of q_ancillae = Some anc"
    and "list_all chk (cs @ ts @ anc)" "distinct (cs @ ts @ anc)"
    and "length cs = 1 \<or> (2 \<le> length cs \<and> length anc = length cs - 1)"
    and "\<forall>a\<in>set anc. \<not> s a"
  shows "\<exists>ops. mcmt chk qc q_controls q_ancillae q_targets ''basic'' = (None, qc @ ops)
           \<and> (\<forall>q. exec f ops s q = (if q \<in> set ts \<and> list_all s cs then f (s q) else s q))"
proof (cases "length cs = 1")
  case True
  then obtain c where c: "cs = [c]" by (cases cs) auto
  have r: "mcmt chk qc q_controls q_ancillae q_targets ''basic'' = (None, qc @ map (CGate c) ts)"
    using mcmt_single [of q_controls c q_targets ts q_ancillae anc chk qc "''basic''"]
      assms(1-5) c by simp
  have "distinct (c # ts)" using assms(5) c by simp
  then have "\<forall>q. exec f (map (CGate c) ts) s q
               = (if q \<in> set ts \<and> list_all s cs then f (s q) else s q)"
    using single_control_effect [of c ts f s] c by simp
  then show ?thesis using r by blast
next
  case False
  then have k: "2 \<le> length cs" and ex: "length cs = Suc (length anc)" using assms(6) by auto
  have le: "length cs \<le> Suc (length anc)" using ex by simp
  let ?ops = "compute_folds cs anc @ map (CGate (last anc)) ts @ uncompute_folds cs anc"
  have r: "mcmt chk qc q_controls q_ancillae q_targets ''basic'' = (None, qc @ ?ops)"
    using mcmt_basic_ok [OF assms(1-5) k le] .
  have "exec f ?ops s q = (if q \<in> set ts \<and> list_all s cs then f (s q) else s q)" for q
  proof (cases "q \<in> set ts")
    case True
    then show ?thesis using exact_pool_target [OF assms(5) k ex assms(7) True, of f] by auto
  next
    case False
    then show ?thesis using exact_pool_restores [OF assms(5) k ex False, of f s] by simp
  qed
  then show ?thesis using r by blast
qed

theorem mcmt_classical_effect_witness:
  "qubits_of (PyList [0, 1]) = Some [0, 1] \<and> qubits_of (PyList [3]) = Some [3]
   \<and> ancillae_of (PyList [2]) = Some [2]
   \<and> list_all accept_all ([0, 1] @ [3] @ [2]) \<and> distinct ([0, 1] @ [3] @ [2 :: qubit])
   \<and> 2 \<le> length [0 :: qubit, 1] \<and> length [2 :: qubit] = length [0 :: qubit, 1] - 1
   \<and> \<not> basis_state [0, 1] 2
   \<and> mcmt accept_all [] (PyList [0, 1]) (PyList [2]) (PyList [3]) ''basic''
        = (None, [CCX 0 1 2, CGate 2 3, CCX 0 1 2])
   \<and> exec Not [CCX 0 1 2, CGate 2 3, CCX 0 1 2] (basis_state [0, 1]) 3 = True
   \<and> exec Not [CCX 0 1 2, CGate 2 3, CCX 0 1 2] (basis_state [0, 1]) 2 = False"
proof -
  have r: "mcmt accept_all [] (PyList [0, 1]) (PyList [2]) (PyList [3]) ''basic''
        = (None, [CCX 0 1 2, CGate 2 3, CCX 0 1 2])"
    by (simp add: mcmt_def accept_all_def check_dups_def ccx_v_chain_compute_def
        ccx_v_chain_uncompute_def subscript_def)
  have h: "\<forall>a\<in>set [2]. \<not> basis_state [0, 1] a" by (simp add: basis_state_def)
  have "\<exists>ops. mcmt accept_all [] (PyList [0, 1]) (PyList [2]) (PyList [3]) ''basic'' = (None, [] @ ops)
           \<and> (\<forall>q. exec Not ops (basis_state [0, 1]) q
                 = (if q \<in> set [3] \<and> list_all (basis_state [0, 1]) [0, 1]
                    then Not (basis_state [0, 1] q) else basis_state [0, 1] q))"
    using h mcmt_classical_effect [where q_controls = "PyList [0, 1]" and cs = "[0, 1]"
        and q_targets = "PyList [3]" and ts = "[3]" and q_ancillae = "PyList [2]" and anc = "[2]"
        and chk = accept_all and s = "basis_state [0, 1]" and qc = "[]" and f = Not]
    by (simp add: accept_all_def)
  then have e: "\<forall>q. exec Not [CCX 0 1 2, CGate 2 3, CCX 0 1 2] (basis_state [0, 1]) q
                 = (if q \<in> set [3] \<and> list_all (basis_state [0, 1]) [0, 1]
                    then Not (basis_state [0, 1] q) else basis_state [0, 1] q)"
    unfolding r by simp
  have "exec Not [CCX 0 1 2, CGate 2 3, CCX 0 1 2] (basis_state [0, 1]) 3 = True"
    and "exec Not [CCX 0 1 2, CGate 2 3, CCX 0 1 2] (basis_state [0, 1]) 2 = False"
    using spec [OF e, of 3] spec [OF e, of 2] by (simp_all add: basis_state_def)
  then show ?thesis using r by (simp add: accept_all_def basis_state_def)
qed

text \<open>
  C8.  The claim that \<open>ancillae[k-3]\<close> holds the conjunction of all controls and that
  nothing beyond that index is touched fails: with three controls of which the first
  two are set, \<open>ancillae[0]\<close> is set although not all controls are; and with all three
  set, \<open>ancillae[1]\<close> is written.
\<close>

theorem compute_chain_last_written:
  "ccx_v_chain_compute [] [0, 1, 2] [3, 4] = (None, [CCX 0 1 3, CCX 2 3 4])
   \<and> exec Not [CCX 0 1 3, CCX 2 3 4] (basis_state [0, 1]) ([3, 4] ! (length [0 :: qubit, 1, 2] - 3))
       = True
   \<and> list_all (basis_state [0, 1]) [0, 1, 2] = False
   \<and> exec Not [CCX 0 1 3, CCX 2 3 4] (basis_state [0, 1, 2]) ([3, 4] ! 1)
       \<noteq> basis_state [0, 1, 2] ([3, 4] ! 1)"
  by (simp add: ccx_v_chain_compute_def subscript_def exec_def basis_state_def)

text \<open>
  C8, as amended.  With \<open>k \<ge> 2\<close> controls, at least \<open>k - 1\<close> ancillae, controls and
  ancillae distinct: the compute chain succeeds and appends the fold of \<open>controls[0]\<close>
  and \<open>controls[1]\<close> into \<open>ancillae[0]\<close>, then for \<open>i = 2..k-1\<close> the fold of
  \<open>controls[i]\<close> and \<open>ancillae[i-2]\<close> into \<open>ancillae[i-1]\<close> (this list is
  \<open>compute_folds\<close>); with the ancillae clear in the initial state, \<open>ancillae[k-2]\<close>, the
  last one written, then holds the conjunction of all controls, and the ancillae beyond
  index \<open>k - 2\<close> keep their values.
\<close>

theorem compute_chain_and:
  assumes "2 \<le> length cs" "length cs - 1 \<le> length anc"
    and "distinct (cs @ anc)" "\<forall>a\<in>set anc. \<not> s a"
  shows "ccx_v_chain_compute qc cs anc
           = (None, qc @ CCX (cs ! 0) (cs ! 1) (anc ! 0) #
                map (\<lambda>i. CCX (cs ! i) (anc ! (i - 2)) (anc ! (i - 1))) [2 ..< length cs])
       \<and> exec f (compute_folds cs anc) s (anc ! (length cs - 2)) = list_all s cs
       \<and> (\<forall>j. length cs - 2 < j \<and> j < length anc \<longrightarrow>
             exec f (compute_folds cs anc) s (anc ! j) = s (anc ! j))"
proof (intro conjI allI impI)
  have le: "length cs \<le> Suc (length anc)" using assms(1,2) by simp
  show "ccx_v_chain_compute qc cs anc
           = (None, qc @ CCX (cs ! 0) (cs ! 1) (anc ! 0) #
                map (\<lambda>i. CCX (cs ! i) (anc ! (i - 2)) (anc ! (i - 1))) [2 ..< length cs])"
    using compute_ok [OF assms(1) le, of qc] by (simp add: compute_folds_def)
  show "exec f (compute_folds cs anc) s (anc ! (length cs - 2)) = list_all s cs"
    using compute_folds_and [OF assms(3,4) assms(1) le] .
  fix j assume j: "length cs - 2 < j \<and> j < length anc"
  have d: "distinct anc" using assms(3) by simp
  have "length cs - 1 \<le> j" using j assms(1) by arith
  then have "anc ! j \<notin> set (take (length cs - 1) anc)"
    using nth_beyond_take [OF d, of "length cs - 1" j] j by simp
  then have "anc ! j \<notin> written ` set (compute_folds cs anc)"
    using written_compute_folds_pool [OF assms(1) le] by blast
  then show "exec f (compute_folds cs anc) s (anc ! j) = s (anc ! j)"
    by (rule exec_unwritten)
qed

theorem compute_chain_and_witness:
  "2 \<le> length [0 :: qubit, 1, 2] \<and> length [0 :: qubit, 1, 2] - 1 \<le> length [3 :: qubit, 4, 5]
   \<and> distinct ([0, 1, 2] @ [3, 4, 5 :: qubit])
   \<and> \<not> basis_state [0, 1, 2] 3 \<and> \<not> basis_state [0, 1, 2] 4 \<and> \<not> basis_state [0, 1, 2] 5
   \<and> ccx_v_chain_compute [] [0, 1, 2] [3, 4, 5] = (None, [CCX 0 1 3, CCX 2 3 4])
   \<and> exec Not (compute_folds [0, 1, 2] [3, 4, 5]) (basis_state [0, 1, 2]) 4 = True
   \<and> exec Not (compute_folds [0, 1, 2] [3, 4, 5]) (basis_state [0, 1, 2]) 5 = False"
proof -
  have h: "\<forall>a\<in>set [3, 4, 5]. \<not> basis_state [0, 1, 2] a" by (simp add: basis_state_def)
  have t: "ccx_v_chain_compute [] [0, 1, 2] [3, 4, 5]
           = (None, [] @ CCX ([0, 1, 2] ! 0) ([0, 1, 2] ! 1) ([3, 4, 5] ! 0) #
                map (\<lambda>i. CCX ([0, 1, 2] ! i) ([3, 4, 5] ! (i - 2)) ([3, 4, 5] ! (i - 1)))
                  [2 ..< length [0 :: qubit, 1, 2]])
       \<and> exec Not (compute_folds [0, 1, 2] [3, 4, 5]) (basis_state [0, 1, 2])
             ([3, 4, 5] ! (length [0 :: qubit, 1, 2] - 2)) = list_all (basis_state [0, 1, 2]) [0, 1, 2]
       \<and> (\<forall>j. length [0 :: qubit, 1, 2] - 2 < j \<and> j < length [3 :: qubit, 4, 5] \<longrightarrow>
             exec Not (compute_folds [0, 1, 2] [3, 4, 5]) (basis_state [0, 1, 2]) ([3, 4, 5] ! j)
               = basis_state [0, 1, 2] ([3, 4, 5] ! j))"
    using h compute_chain_and [where cs = "[0, 1, 2]" and anc = "[3, 4, 5]"
        and s = "basis_state [0, 1, 2]" and qc = "[]" and f = Not]
    by simp
  then have a: "exec Not (compute_folds [0, 1, 2] [3, 4, 5]) (basis_state [0, 1, 2]) 4 = True"
    by (simp add: basis_state_def)
  from t have "length [0 :: qubit, 1, 2] - 2 < 2 \<and> 2 < length [3 :: qubit, 4, 5] \<longrightarrow>
             exec Not (compute_folds [0, 1, 2] [3, 4, 5]) (basis_state [0, 1, 2]) ([3, 4, 5] ! 2)
               = basis_state [0, 1, 2] ([3, 4, 5] ! 2)" by blast
  then have b: "exec Not (compute_folds [0, 1, 2] [3, 4, 5]) (basis_state [0, 1, 2]) 5 = False"
    by (simp add: basis_state_def)
  have c: "ccx_v_chain_compute [] [0, 1, 2] [3, 4, 5] = (None, [CCX 0 1 3, CCX 2 3 4])"
    by (simp add: ccx_v_chain_compute_def subscript_def)
  show ?thesis using a b c by (simp add: basis_state_def)
qed

end
